theory Spec2Isabelle
  imports Complex_Main
begin

section \<open>JavaScript strings and regular expressions\<close>

text \<open>
  A JavaScript string is a sequence of UTF-16 code units; \<open>length\<close> and a regular
  expression without the \<open>u\<close> flag both work on code units. A code unit is modelled as a
  natural number, \<open>js\<close> turns an ASCII literal into its code units.
\<close>

type_synonym code_unit = nat
type_synonym jsstring = "code_unit list"

definition cu :: "char \<Rightarrow> code_unit" where
  "cu c = of_char c"

definition js :: "string \<Rightarrow> jsstring" where
  "js cs = map of_char cs"

text \<open>
  The fragment of the regular expression language that \<open>walletAddressRegex\<close> uses: the
  assertions \<open>^\<close> and \<open>$\<close> (no \<open>m\<close> flag: start and end of the input), a character class of
  inclusive ranges, sequencing, and the bounded quantifier \<open>{lo,hi}\<close>.
\<close>

type_synonym char_class = "(code_unit \<times> code_unit) list"

datatype regex =
    Bol
  | Eol
  | Class char_class
  | Seq regex regex
  | Repeat regex nat nat

definition in_class :: "char_class \<Rightarrow> code_unit \<Rightarrow> bool" where
  "in_class rs c = list_ex (\<lambda>(lo, hi). lo \<le> c \<and> c \<le> hi) rs"

text \<open>
  \<open>rep f lo hi i\<close>: the positions reached from \<open>i\<close> by between \<open>lo\<close> and \<open>hi\<close> rounds
  of \<open>f\<close>. \<open>ends r s i\<close>: every position at which a match of \<open>r\<close> that starts at
  position \<open>i\<close> of \<open>s\<close> can end (the backtracking matcher tries all of them).
\<close>

fun rep :: "(nat \<Rightarrow> nat list) \<Rightarrow> nat \<Rightarrow> nat \<Rightarrow> nat \<Rightarrow> nat list" where
  "rep f lo 0 i = (if lo = 0 then [i] else [])"
| "rep f lo (Suc hi) i =
     (if lo = 0 then [i] else []) @ concat (map (rep f (lo - 1) hi) (f i))"

fun ends :: "regex \<Rightarrow> jsstring \<Rightarrow> nat \<Rightarrow> nat list" where
  "ends Bol s i = (if i = 0 then [i] else [])"
| "ends Eol s i = (if i = length s then [i] else [])"
| "ends (Class rs) s i = (if i < length s \<and> in_class rs (s ! i) then [Suc i] else [])"
| "ends (Seq a b) s i = concat (map (ends b s) (ends a s i))"
| "ends (Repeat r lo hi) s i = rep (\<lambda>j. ends r s j) lo hi i"

text \<open>
  \<open>RegExp.prototype.test\<close> of a pattern without the \<open>g\<close> and \<open>y\<close> flags: is there a
  match starting at some position of the input.
\<close>

definition regex_test :: "regex \<Rightarrow> jsstring \<Rightarrow> bool" where
  "regex_test re s = list_ex (\<lambda>i. ends re s i \<noteq> []) [0..<Suc (length s)]"

text \<open>\<^verbatim>\<open>const walletAddressRegex = /^[13][a-km-zA-HJ-NP-Z1-9]{25,34}$/;\<close>\<close>

definition walletAddressRegex :: regex where
  "walletAddressRegex =
     Seq Bol
    (Seq (Class [(cu CHR ''1'', cu CHR ''1''), (cu CHR ''3'', cu CHR ''3'')])
    (Seq (Repeat (Class [(cu CHR ''a'', cu CHR ''k''), (cu CHR ''m'', cu CHR ''z''),
                         (cu CHR ''A'', cu CHR ''H''), (cu CHR ''J'', cu CHR ''N''),
                         (cu CHR ''P'', cu CHR ''Z''), (cu CHR ''1'', cu CHR ''9'')]) 25 34)
     Eol))"

subsection \<open>The address rule in the specification's words\<close>

text \<open>
  The rule as the specification words it: 26 to 35 characters, the first one \<open>1\<close> or \<open>3\<close>,
  every character base58-safe, that is a digit or a Latin letter other than \<open>0\<close>, \<open>O\<close>,
  \<open>I\<close> and \<open>l\<close>.
\<close>

definition is_alnum :: "code_unit \<Rightarrow> bool" where
  "is_alnum c \<longleftrightarrow>
     (cu CHR ''0'' \<le> c \<and> c \<le> cu CHR ''9'') \<or>
     (cu CHR ''A'' \<le> c \<and> c \<le> cu CHR ''Z'') \<or>
     (cu CHR ''a'' \<le> c \<and> c \<le> cu CHR ''z'')"

definition base58_safe :: "code_unit \<Rightarrow> bool" where
  "base58_safe c \<longleftrightarrow>
     is_alnum c \<and> c \<noteq> cu CHR ''0'' \<and> c \<noteq> cu CHR ''O'' \<and> c \<noteq> cu CHR ''I'' \<and> c \<noteq> cu CHR ''l''"

definition starts_with_1_or_3 :: "jsstring \<Rightarrow> bool" where
  "starts_with_1_or_3 s =
     (case s of [] \<Rightarrow> False | c # _ \<Rightarrow> c = cu CHR ''1'' \<or> c = cu CHR ''3'')"

definition valid_address :: "jsstring \<Rightarrow> bool" where
  "valid_address s \<longleftrightarrow>
     26 \<le> length s \<and> length s \<le> 35 \<and> starts_with_1_or_3 s \<and> list_all base58_safe s"

section \<open>The state of the component\<close>

text \<open>
  The seven \<open>useState\<close> cells of \<open>MiningDashboard\<close>. The three numbers are only stored,
  compared with 0 and displayed, never computed with; they are modelled as reals.
\<close>

datatype message_type = Error | Success

type_synonym message = "message_type \<times> jsstring"

record state =
  isMining :: bool
  progress :: real
  hashRate :: real
  totalMined :: real
  customWallet :: jsstring
  message :: "message option"
  isLoading :: bool

definition initial_state :: state where
  "initial_state =
     \<lparr>isMining = False, progress = 0, hashRate = 0, totalMined = 0,
      customWallet = [], message = None, isLoading = False\<rparr>"

section \<open>Requests and responses\<close>

text \<open>
  Every request is a POST to \<open>/api/mining\<close> whose JSON body names the action; the
  deposit carries the wallet.
\<close>

datatype request = StartRequest | StopRequest | StatusRequest | DepositRequest jsstring

text \<open>
  What \<open>await fetch(...)\<close> gives: the promise rejects (transport error), or there is a
  response with its \<open>ok\<close> flag and a body. The body is \<open>Some\<close> data of the endpoint's
  interface (for a status \<open>{progress, hashRate, totalMined}\<close>, for a deposit
  \<open>{message?: string}\<close>), or \<open>None\<close> for a body outside the interface that makes the
  handler throw: \<open>res.json()\<close> rejects (no JSON), or it yields \<open>null\<close> and reading a
  property of it throws.
\<close>

datatype 'b response = FetchRejects | Response bool "'b option"

record status_data =
  data_progress :: real
  data_hashRate :: real
  data_totalMined :: real

text \<open>The body of a deposit response: its optional \<open>message\<close> field.\<close>

type_synonym deposit_data = "jsstring option"

text \<open>\<open>data.message || dflt\<close>: an absent or empty message is falsy.\<close>

definition or_default :: "jsstring option \<Rightarrow> jsstring \<Rightarrow> jsstring" where
  "or_default m dflt = (case m of None \<Rightarrow> dflt | Some t \<Rightarrow> if t = [] then dflt else t)"

section \<open>The handlers\<close>

text \<open>
  Each asynchronous handler is split at its one \<open>await fetch\<close>: the part that runs when
  it is called, which returns the new state and the requests it issues, and the part
  that runs when the response arrives. The handler run without interruption is their
  composition.
\<close>

subsection \<open>startMining\<close>

definition startMining_begin :: "state \<Rightarrow> state \<times> request list" where
  "startMining_begin s = (s\<lparr>isLoading := True, message := None\<rparr>, [StartRequest])"

fun startMining_resume :: "'b response \<Rightarrow> state \<Rightarrow> state" where
  "startMining_resume (Response ok body) s =
     (if ok
      then s\<lparr>isMining := True, message := Some (Success, js ''Mining started.''),
             isLoading := False\<rparr>
      else s\<lparr>message := Some (Error, js ''Failed to start mining.''), isLoading := False\<rparr>)"
| "startMining_resume FetchRejects s =
     s\<lparr>message := Some (Error, js ''Error starting mining.''), isLoading := False\<rparr>"

definition startMining :: "'b response \<Rightarrow> state \<Rightarrow> state \<times> request list" where
  "startMining r s = (case startMining_begin s of (s1, reqs) \<Rightarrow> (startMining_resume r s1, reqs))"

subsection \<open>stopMining\<close>

definition stopMining_begin :: "state \<Rightarrow> state \<times> request list" where
  "stopMining_begin s = (s\<lparr>isLoading := True, message := None\<rparr>, [StopRequest])"

fun stopMining_resume :: "'b response \<Rightarrow> state \<Rightarrow> state" where
  "stopMining_resume (Response ok body) s =
     (if ok
      then s\<lparr>isMining := False, message := Some (Success, js ''Mining stopped.''),
             isLoading := False\<rparr>
      else s\<lparr>message := Some (Error, js ''Failed to stop mining.''), isLoading := False\<rparr>)"
| "stopMining_resume FetchRejects s =
     s\<lparr>message := Some (Error, js ''Error stopping mining.''), isLoading := False\<rparr>"

definition stopMining :: "'b response \<Rightarrow> state \<Rightarrow> state \<times> request list" where
  "stopMining r s = (case stopMining_begin s of (s1, reqs) \<Rightarrow> (stopMining_resume r s1, reqs))"

subsection \<open>deposit\<close>

definition deposit_begin :: "state \<Rightarrow> state \<times> request list" where
  "deposit_begin s =
     (let s0 = s\<lparr>message := None\<rparr> in
      if \<not> regex_test walletAddressRegex (customWallet s)
      then (s0\<lparr>message := Some (Error, js ''Invalid Bitcoin wallet address.'')\<rparr>, [])
      else (s0\<lparr>isLoading := True\<rparr>, [DepositRequest (customWallet s)]))"

fun deposit_resume :: "deposit_data response \<Rightarrow> state \<Rightarrow> state" where
  "deposit_resume (Response True (Some data)) s =
     s\<lparr>message := Some (Success, or_default data (js ''Deposit successful.'')),
       totalMined := 0, isLoading := False\<rparr>"
| "deposit_resume (Response False (Some errData)) s =
     s\<lparr>message := Some (Error, or_default errData (js ''Deposit failed.'')),
       isLoading := False\<rparr>"
| "deposit_resume (Response ok None) s =
     s\<lparr>message := Some (Error, js ''Error during deposit.''), isLoading := False\<rparr>"
| "deposit_resume FetchRejects s =
     s\<lparr>message := Some (Error, js ''Error during deposit.''), isLoading := False\<rparr>"

text \<open>A rejected address returns before the request: there is no second part to run.\<close>

definition deposit :: "deposit_data response \<Rightarrow> state \<Rightarrow> state \<times> request list" where
  "deposit r s =
     (case deposit_begin s of
        (s1, []) \<Rightarrow> (s1, [])
      | (s1, req # reqs) \<Rightarrow> (deposit_resume r s1, req # reqs))"

subsection \<open>The poll tick\<close>

definition poll_begin :: "state \<Rightarrow> state \<times> request list" where
  "poll_begin s = (s, [StatusRequest])"

fun poll_resume :: "status_data response \<Rightarrow> state \<Rightarrow> state" where
  "poll_resume (Response True (Some data)) s =
     s\<lparr>progress := data_progress data, hashRate := data_hashRate data,
       totalMined := data_totalMined data\<rparr>"
| "poll_resume (Response True None) s =
     s\<lparr>message := Some (Error, js ''Error fetching mining status.'')\<rparr>"
| "poll_resume (Response False body) s =
     s\<lparr>message := Some (Error, js ''Failed to fetch mining status.'')\<rparr>"
| "poll_resume FetchRejects s =
     s\<lparr>message := Some (Error, js ''Error fetching mining status.'')\<rparr>"

section \<open>The mounted component\<close>

text \<open>
  The component in its environment: its state, whether it is mounted, the interval that
  is registered (its period in milliseconds), the requests awaiting a response, and
  every request sent so far. \<open>ran_for\<close> is the value of \<open>isMining\<close> that the latest run of
  the polling effect saw, as long as the clean-up of that run has not run; \<open>None\<close> when
  no run is outstanding.
\<close>

record world =
  st :: state
  mounted :: bool
  interval :: "nat option"
  ran_for :: "bool option"
  pending :: "request list"
  sent :: "request list"

text \<open>The component is mounted; its effect has not run yet.\<close>

definition init :: world where
  "init =
     \<lparr>st = initial_state, mounted = True, interval = None, ran_for = None,
      pending = [], sent = []\<rparr>"

text \<open>
  The body of the polling effect: with \<open>isMining\<close> it registers the interval of 2000 ms,
  otherwise it registers nothing. Its clean-up clears the interval that this run
  registered, if it registered one.
\<close>

definition runEffect :: "world \<Rightarrow> world" where
  "runEffect w =
     w\<lparr>interval := (if isMining (st w) then Some 2000 else interval w),
       ran_for := Some (isMining (st w))\<rparr>"

definition cleanupEffect :: "world \<Rightarrow> world" where
  "cleanupEffect w =
     (case ran_for w of
        None \<Rightarrow> w
      | Some mining \<Rightarrow> w\<lparr>interval := (if mining then None else interval w), ran_for := None\<rparr>)"

text \<open>
  React runs the effects of a commit after the commit, in a task of their own: for a
  mounted component whose \<open>isMining\<close> differs from what the latest run saw (or that has
  not run the effect yet) the clean-up of the latest run and then the effect; for an
  unmounted one the clean-up.
\<close>

definition flushEffects :: "world \<Rightarrow> world" where
  "flushEffects w =
     (if mounted w
      then (if ran_for w = Some (isMining (st w)) then w else runEffect (cleanupEffect w))
      else cleanupEffect w)"

text \<open>
  A render commits the new state and nothing else: the effect and its clean-up are left
  to the next \<open>flushEffects\<close>, so the interval can fire in between.
\<close>

definition render :: "state \<Rightarrow> world \<Rightarrow> world" where
  "render s' w = w\<lparr>st := s'\<rparr>"

text \<open>State setters of an unmounted component do nothing.\<close>

definition update :: "(state \<Rightarrow> state) \<Rightarrow> world \<Rightarrow> world" where
  "update f w = (if mounted w then render (f (st w)) w else w)"

definition invoke :: "(state \<Rightarrow> state \<times> request list) \<Rightarrow> world \<Rightarrow> world" where
  "invoke h w =
     (case h (st w) of
        (s', reqs) \<Rightarrow> (update (\<lambda>_. s') w)\<lparr>pending := pending w @ reqs, sent := sent w @ reqs\<rparr>)"

text \<open>
  The \<open>disabled\<close> attributes of the three buttons and of the input, as the JSX computes
  them.
\<close>

definition start_disabled :: "state \<Rightarrow> bool" where
  "start_disabled s \<longleftrightarrow> isMining s \<or> isLoading s"

definition stop_disabled :: "state \<Rightarrow> bool" where
  "stop_disabled s \<longleftrightarrow> \<not> isMining s \<or> isLoading s"

definition input_disabled :: "state \<Rightarrow> bool" where
  "input_disabled s \<longleftrightarrow> isLoading s"

definition deposit_disabled :: "state \<Rightarrow> bool" where
  "deposit_disabled s \<longleftrightarrow> isLoading s \<or> totalMined s \<le> 0"

datatype event =
    ClickStart
  | ClickStop
  | ClickDeposit
  | ChangeWallet jsstring
  | IntervalFires
  | StartResponds "unit response"
  | StopResponds "unit response"
  | StatusResponds "status_data response"
  | DepositResponds jsstring "deposit_data response"
  | FlushEffects
  | Unmount

text \<open>
  Modelled from the spec: the \<open>Button\<close> and \<open>Input\<close> components
  (\<open>components/ui/button\<close>, \<open>components/ui/input\<close>) are missing from the source
  tree; as the flags "gate all action triggers", a click on a disabled button and a
  change of the disabled input run no handler.

  One event of the single-threaded event loop. The handlers are closures of the
  component: they run from the buttons only, and the poll from the interval, whenever
  one is registered. A response is delivered to a request that is pending; the
  responses may arrive in any order. The effects that a commit left pending run at
  some later step (\<open>FlushEffects\<close>), and at the latest when React handles the next click
  or change of the input, before it renders again. Unmounting leaves the clean-up
  pending in the same way.
\<close>

fun step :: "event \<Rightarrow> world \<Rightarrow> world" where
  "step ClickStart w =
     (if mounted w \<and> \<not> start_disabled (st w)
      then invoke startMining_begin (flushEffects w) else w)"
| "step ClickStop w =
     (if mounted w \<and> \<not> stop_disabled (st w)
      then invoke stopMining_begin (flushEffects w) else w)"
| "step ClickDeposit w =
     (if mounted w \<and> \<not> deposit_disabled (st w)
      then invoke deposit_begin (flushEffects w) else w)"
| "step (ChangeWallet v) w =
     (if mounted w \<and> \<not> input_disabled (st w)
      then update (\<lambda>s. s\<lparr>customWallet := v\<rparr>) (flushEffects w)
      else w)"
| "step IntervalFires w =
     (if interval w \<noteq> None then invoke poll_begin w else w)"
| "step (StartResponds r) w =
     (if StartRequest \<in> set (pending w)
      then update (startMining_resume r) (w\<lparr>pending := remove1 StartRequest (pending w)\<rparr>)
      else w)"
| "step (StopResponds r) w =
     (if StopRequest \<in> set (pending w)
      then update (stopMining_resume r) (w\<lparr>pending := remove1 StopRequest (pending w)\<rparr>)
      else w)"
| "step (StatusResponds r) w =
     (if StatusRequest \<in> set (pending w)
      then update (poll_resume r) (w\<lparr>pending := remove1 StatusRequest (pending w)\<rparr>)
      else w)"
| "step (DepositResponds a r) w =
     (if DepositRequest a \<in> set (pending w)
      then update (deposit_resume r) (w\<lparr>pending := remove1 (DepositRequest a) (pending w)\<rparr>)
      else w)"
| "step FlushEffects w = flushEffects w"
| "step Unmount w = w\<lparr>mounted := False\<rparr>"

fun run :: "event list \<Rightarrow> world \<Rightarrow> world" where
  "run [] w = w"
| "run (e # es) w = run es (step e w)"

text \<open>A request of one of the three user actions, as opposed to a status poll.\<close>

fun is_action :: "request \<Rightarrow> bool" where
  "is_action StatusRequest = False"
| "is_action _ = True"

definition action_in_flight :: "world \<Rightarrow> bool" where
  "action_in_flight w \<longleftrightarrow> list_ex is_action (pending w)"

text \<open>
  The polling effect is up to date: it has run for the committed \<open>isMining\<close> of a mounted
  component, and no run is outstanding for an unmounted one.
\<close>

definition effects_current :: "world \<Rightarrow> bool" where
  "effects_current w \<longleftrightarrow> ran_for w = (if mounted w then Some (isMining (st w)) else None)"

text \<open>Example inputs.\<close>

definition example_address :: jsstring where
  "example_address = js ''1BoatSLRHtKNngkdXEeobR76b53LETtpyT''"

definition short_address :: jsstring where
  "short_address = js ''1Boat''"

definition funded_state :: state where
  "funded_state = initial_state\<lparr>totalMined := 12.5, customWallet := example_address\<rparr>"

definition typed_world :: world where
  "typed_world = run [ChangeWallet example_address] init"

definition mining_world :: world where
  "mining_world = run [ClickStart, StartResponds (Response True None), FlushEffects] init"

definition polling_world :: world where
  "polling_world =
     run [ClickStart, StartResponds (Response True None), FlushEffects, IntervalFires] init"

definition stopping_world :: world where
  "stopping_world = run [ClickStart, StartResponds (Response True None), ClickStop] init"

definition stopped_world :: world where
  "stopped_world =
     run [ClickStart, StartResponds (Response True None), ClickStop,
          StopResponds (Response True None)] init"

subsection \<open>Invariants of the reachable worlds\<close>

text \<open>
  The interval is registered exactly from a run of the effect that saw \<open>isMining\<close> until
  the clean-up of that run.
\<close>

definition timer_inv :: "world \<Rightarrow> bool" where
  "timer_inv w \<longleftrightarrow> interval w = (if ran_for w = Some True then Some 2000 else None)"

text \<open>
  At most one request of a user action is pending, and none is while the mounted
  component's loading flag is down.
\<close>

definition gate_inv :: "world \<Rightarrow> bool" where
  "gate_inv w \<longleftrightarrow>
     length (filter is_action (pending w)) \<le> 1 \<and>
     (mounted w \<and> \<not> isLoading (st w) \<longrightarrow> filter is_action (pending w) = [])"

text \<open>
  While a stop request of the mounted component is pending, it is mining and its effect
  has run for that.
\<close>

definition stop_inv :: "world \<Rightarrow> bool" where
  "stop_inv w \<longleftrightarrow>
     (mounted w \<and> StopRequest \<in> set (pending w) \<longrightarrow>
        isMining (st w) \<and> ran_for w = Some True)"

section \<open>The address pattern and the specification's rule\<close>

lemma rep_single:
  assumes f: "\<And>j. f j = (if j < n \<and> P j then [Suc j] else [])"
  shows "i \<le> n \<Longrightarrow> set (rep f lo hi i) =
     {j. i + lo \<le> j \<and> j \<le> i + hi \<and> j \<le> n \<and> (\<forall>k. i \<le> k \<and> k < j \<longrightarrow> P k)}"
proof (induction hi arbitrary: lo i)
  case 0
  then show ?case by auto
next
  case (Suc hi)
  let ?R = "{j. i + lo \<le> j \<and> j \<le> i + Suc hi \<and> j \<le> n \<and> (\<forall>k. i \<le> k \<and> k < j \<longrightarrow> P k)}"
  show ?case
  proof (cases "i < n \<and> P i")
    case True
    then have le: "Suc i \<le> n" by simp
    have fi: "f i = [Suc i]" using True f [of i] by simp
    have unfold: "set (rep f lo (Suc hi) i) =
       (if lo = 0 then {i} else {}) \<union> set (rep f (lo - 1) hi (Suc i))"
      by (simp add: fi)
    note IH = Suc.IH [OF le, of "lo - 1"]
    show ?thesis
    proof (intro set_eqI iffI)
      fix j assume "j \<in> set (rep f lo (Suc hi) i)"
      then consider "lo = 0" "j = i" | "j \<in> set (rep f (lo - 1) hi (Suc i))"
        unfolding unfold by (auto split: if_splits)
      then show "j \<in> ?R"
      proof cases
        case 1
        with True show ?thesis by auto
      next
        case 2
        then have a: "Suc i + (lo - 1) \<le> j" "j \<le> Suc i + hi" "j \<le> n"
          and b: "\<forall>k. Suc i \<le> k \<and> k < j \<longrightarrow> P k"
          unfolding IH by auto
        have "P k" if "i \<le> k" "k < j" for k
          using that b True by (cases "k = i") auto
        with a show ?thesis by auto
      qed
    next
      fix j assume j: "j \<in> ?R"
      show "j \<in> set (rep f lo (Suc hi) i)"
      proof (cases "j = i")
        case True
        with j show ?thesis unfolding unfold by auto
      next
        case False
        with j have "j \<in> set (rep f (lo - 1) hi (Suc i))"
          unfolding IH by auto
        then show ?thesis unfolding unfold by simp
      qed
    qed
  next
    case False
    then have fi: "f i = []" using f [of i] by simp
    have unfold: "set (rep f lo (Suc hi) i) = (if lo = 0 then {i} else {})"
      by (simp add: fi)
    show ?thesis
    proof (intro set_eqI iffI)
      fix j assume "j \<in> set (rep f lo (Suc hi) i)"
      then show "j \<in> ?R"
        unfolding unfold using Suc.prems by (auto split: if_splits)
    next
      fix j assume j: "j \<in> ?R"
      have "j = i"
      proof (rule ccontr)
        assume "j \<noteq> i"
        with j have "i < j" "j \<le> n" "P i" by auto
        with False show False by auto
      qed
      with j show "j \<in> set (rep f lo (Suc hi) i)" unfolding unfold by auto
    qed
  qed
qed

lemma rep_Class:
  "i \<le> length s \<Longrightarrow> set (rep (\<lambda>j. ends (Class rs) s j) lo hi i) =
     {j. i + lo \<le> j \<and> j \<le> i + hi \<and> j \<le> length s \<and>
         (\<forall>k. i \<le> k \<and> k < j \<longrightarrow> in_class rs (s ! k))}"
  by (rule rep_single) simp

lemma regex_test_anchored: "regex_test (Seq Bol r) s \<longleftrightarrow> ends r s 0 \<noteq> []"
  unfolding regex_test_def list_ex_iff by (auto simp del: upt_Suc)

lemma ends_Seq_Class:
  "ends (Seq (Class rs) r) s 0 \<noteq> [] \<longleftrightarrow> s \<noteq> [] \<and> in_class rs (s ! 0) \<and> ends r s 1 \<noteq> []"
  by auto

lemma ends_tail:
  "ends (Seq (Repeat (Class rs) lo hi) Eol) s 1 \<noteq> [] \<longleftrightarrow>
     1 + lo \<le> length s \<and> length s \<le> 1 + hi \<and>
     (\<forall>k. 1 \<le> k \<and> k < length s \<longrightarrow> in_class rs (s ! k))"
proof (cases "1 \<le> length s")
  case True
  have "ends (Seq (Repeat (Class rs) lo hi) Eol) s 1 \<noteq> [] \<longleftrightarrow>
      length s \<in> set (rep (\<lambda>j. ends (Class rs) s j) lo hi 1)"
    by (auto simp del: ends.simps(3) simp: concat_eq_Nil_conv split: if_splits)
  then show ?thesis unfolding rep_Class [OF True] by auto
next
  case False
  then have s: "s = []" by (cases s) auto
  have "rep (\<lambda>j. []) lo hi i = (if lo = 0 then [i] else [])" for i :: nat
    by (cases hi) auto
  moreover have "ends (Class rs) [] = (\<lambda>j. [])"
    by (rule ext) simp
  ultimately show ?thesis unfolding s by simp
qed

lemma in_rest_class:
  "in_class [(cu CHR ''a'', cu CHR ''k''), (cu CHR ''m'', cu CHR ''z''),
             (cu CHR ''A'', cu CHR ''H''), (cu CHR ''J'', cu CHR ''N''),
             (cu CHR ''P'', cu CHR ''Z''), (cu CHR ''1'', cu CHR ''9'')] c \<longleftrightarrow> base58_safe c"
  unfolding in_class_def base58_safe_def is_alnum_def cu_def
  by simp arith

lemma in_first_class:
  "in_class [(cu CHR ''1'', cu CHR ''1''), (cu CHR ''3'', cu CHR ''3'')] c \<longleftrightarrow>
     c = cu CHR ''1'' \<or> c = cu CHR ''3''"
  unfolding in_class_def cu_def by auto

lemma first_is_base58: "c = cu CHR ''1'' \<or> c = cu CHR ''3'' \<Longrightarrow> base58_safe c"
  by (auto simp: base58_safe_def is_alnum_def cu_def)

lemma walletAddressRegex_test_iff:
  "regex_test walletAddressRegex s \<longleftrightarrow> valid_address s"
proof -
  have "regex_test walletAddressRegex s \<longleftrightarrow>
      s \<noteq> [] \<and> (s ! 0 = cu CHR ''1'' \<or> s ! 0 = cu CHR ''3'') \<and>
      26 \<le> length s \<and> length s \<le> 35 \<and>
      (\<forall>k. 1 \<le> k \<and> k < length s \<longrightarrow> base58_safe (s ! k))"
    unfolding walletAddressRegex_def regex_test_anchored ends_Seq_Class ends_tail
      in_rest_class in_first_class
    by auto
  also have "\<dots> \<longleftrightarrow> valid_address s"
  proof (cases s)
    case Nil
    then show ?thesis by (simp add: valid_address_def)
  next
    case (Cons c t)
    have "(\<forall>k. 1 \<le> k \<and> k < length s \<longrightarrow> base58_safe (s ! k)) \<longleftrightarrow> list_all base58_safe t"
      unfolding Cons list_all_length
      by (metis One_nat_def Suc_le_eq Suc_less_eq Suc_pred length_Cons nth_Cons_Suc
          zero_less_Suc le_add1 plus_1_eq_Suc)
    then show ?thesis
      using first_is_base58 [of c]
      by (auto simp: Cons valid_address_def starts_with_1_or_3_def)
  qed
  finally show ?thesis .
qed

lemma example_address_valid: "valid_address example_address"
  unfolding walletAddressRegex_test_iff [symmetric] example_address_def by code_simp

lemma short_address_invalid: "\<not> valid_address short_address"
  by (simp add: valid_address_def short_address_def js_def)

section \<open>Deposit: validation and the request\<close>

lemma deposit_begin_invalid:
  "\<not> valid_address (customWallet s) \<Longrightarrow>
     deposit_begin s =
       (s\<lparr>message := Some (Error, js ''Invalid Bitcoin wallet address.'')\<rparr>, [])"
  by (simp add: deposit_begin_def walletAddressRegex_test_iff)

lemma deposit_begin_valid:
  "valid_address (customWallet s) \<Longrightarrow>
     deposit_begin s =
       (s\<lparr>message := None, isLoading := True\<rparr>, [DepositRequest (customWallet s)])"
  by (simp add: deposit_begin_def walletAddressRegex_test_iff)

lemma deposit_invalid:
  "\<not> valid_address (customWallet s) \<Longrightarrow>
     deposit r s = (s\<lparr>message := Some (Error, js ''Invalid Bitcoin wallet address.'')\<rparr>, [])"
  by (simp add: deposit_def deposit_begin_invalid)

lemma deposit_valid:
  "valid_address (customWallet s) \<Longrightarrow>
     deposit r s =
       (deposit_resume r (s\<lparr>message := None, isLoading := True\<rparr>),
        [DepositRequest (customWallet s)])"
  by (simp add: deposit_def deposit_begin_valid)

text \<open>
  C1. The pattern accepts an address exactly when it is 26 to 35 characters long, starts
  with \<open>1\<close> or \<open>3\<close> and has base58-safe characters only. \<open>deposit\<close> issues a request
  exactly for such an address; for any other address it changes nothing but the
  message, which becomes the error message, and issues no request, whatever the
  endpoint would have answered.
\<close>

theorem deposit_validates_address:
  "(regex_test walletAddressRegex a \<longleftrightarrow> valid_address a) \<and>
   (snd (deposit r s) \<noteq> [] \<longleftrightarrow> valid_address (customWallet s)) \<and>
   (\<not> valid_address (customWallet s) \<longrightarrow>
      deposit r s =
        (s\<lparr>message := Some (Error, js ''Invalid Bitcoin wallet address.'')\<rparr>, []))"
  using deposit_invalid [of s r] deposit_valid [of s r]
  by (cases "valid_address (customWallet s)") (simp_all add: walletAddressRegex_test_iff)

theorem deposit_validates_address_witness:
  "regex_test walletAddressRegex example_address \<and>
   snd (deposit FetchRejects (initial_state\<lparr>customWallet := example_address\<rparr>)) \<noteq> [] \<and>
   deposit FetchRejects (initial_state\<lparr>customWallet := short_address\<rparr>) =
     (initial_state\<lparr>customWallet := short_address,
        message := Some (Error, js ''Invalid Bitcoin wallet address.'')\<rparr>, [])"
  using
    deposit_validates_address [of example_address FetchRejects
      "initial_state\<lparr>customWallet := example_address\<rparr>"]
    deposit_validates_address [of example_address FetchRejects
      "initial_state\<lparr>customWallet := short_address\<rparr>"]
    example_address_valid short_address_invalid
  by simp

text \<open>
  C9. For a wallet address that satisfies the validation rule, one call of \<open>deposit\<close>
  issues exactly one request, the deposit request carrying that address, whatever the
  response is.
\<close>

theorem deposit_issues_one_request:
  "valid_address (customWallet s) \<Longrightarrow> snd (deposit r s) = [DepositRequest (customWallet s)]"
  by (simp add: deposit_valid)

theorem deposit_issues_one_request_witness:
  "valid_address example_address \<and>
   snd (deposit (Response True (Some None)) (initial_state\<lparr>customWallet := example_address\<rparr>)) =
     [DepositRequest (js ''1BoatSLRHtKNngkdXEeobR76b53LETtpyT'')]"
  using
    deposit_issues_one_request [of "initial_state\<lparr>customWallet := example_address\<rparr>"
      "Response True (Some None)"]
    example_address_valid
  by (simp add: example_address_def)

section \<open>The outcome of a deposit\<close>

lemma funded_state_valid: "valid_address (customWallet funded_state)"
  by (simp add: funded_state_def example_address_valid)




section \<open>Starting a session\<close>

lemma startMining_resume_failed:
  "\<forall>b. r \<noteq> Response True b \<Longrightarrow>
     isMining (startMining_resume r s) = isMining s \<and>
     (\<exists>t. message (startMining_resume r s) = Some (Error, t))"
  by (cases "(r, s)" rule: startMining_resume.cases) auto

text \<open>
  C3. From a state that is not mining, \<open>startMining\<close> with an ok response ends mining and
  with the success message; with any other outcome (a response that is not ok, or a
  transport error) it ends not mining and with an error message.
\<close>

theorem start_outcome:
  "\<not> isMining s \<Longrightarrow>
     (isMining (fst (startMining (Response True b) s)) \<and>
      message (fst (startMining (Response True b) s)) = Some (Success, js ''Mining started.'')) \<and>
     ((\<forall>b. r \<noteq> Response True b) \<longrightarrow>
        \<not> isMining (fst (startMining r s)) \<and>
        (\<exists>t. message (fst (startMining r s)) = Some (Error, t)))"
  using startMining_resume_failed [of r "s\<lparr>isLoading := True, message := None\<rparr>"]
  by (simp add: startMining_def startMining_begin_def)

theorem start_outcome_witness:
  "\<not> isMining initial_state \<and>
   isMining (fst (startMining (Response True (None :: unit option)) initial_state)) \<and>
   message (fst (startMining (Response True (None :: unit option)) initial_state)) =
     Some (Success, js ''Mining started.'') \<and>
   \<not> isMining (fst (startMining (FetchRejects :: unit response) initial_state)) \<and>
   message (fst (startMining (FetchRejects :: unit response) initial_state)) =
     Some (Error, js ''Error starting mining.'')"
  using start_outcome [of initial_state "None :: unit option" "FetchRejects :: unit response"]
  by (simp add: initial_state_def startMining_def startMining_begin_def)

section \<open>The loading flag\<close>

lemma startMining_resume_loading: "isLoading (startMining_resume r s) = False"
  by (cases "(r, s)" rule: startMining_resume.cases) auto

lemma stopMining_resume_loading: "isLoading (stopMining_resume r s) = False"
  by (cases "(r, s)" rule: stopMining_resume.cases) auto

lemma deposit_resume_loading: "isLoading (deposit_resume r s) = False"
  by (cases "(r, s)" rule: deposit_resume.cases) auto

text \<open>
  C6. Whatever the outcome of the request and whatever the state the response finds,
  the second part of \<open>startMining\<close>, of \<open>stopMining\<close> and of \<open>deposit\<close> leaves the
  loading flag down; so each of the three handlers, run to completion, ends with the
  flag down (\<open>deposit\<close> when the address passed validation, which is when it raised
  the flag).
\<close>

theorem loading_flag_cleared:
  "isLoading (startMining_resume r1 s') = False \<and>
   isLoading (stopMining_resume r2 s') = False \<and>
   isLoading (deposit_resume r3 s') = False \<and>
   isLoading (fst (startMining r1 s)) = False \<and>
   isLoading (fst (stopMining r2 s)) = False \<and>
   (valid_address (customWallet s) \<longrightarrow> isLoading (fst (deposit r3 s)) = False)"
  by (simp add: startMining_def startMining_begin_def stopMining_def stopMining_begin_def
      deposit_valid startMining_resume_loading stopMining_resume_loading deposit_resume_loading)

theorem loading_flag_cleared_witness:
  "valid_address (customWallet funded_state) \<and>
   isLoading (fst (deposit (Response False None) funded_state)) = False"
  using
    loading_flag_cleared [where ?r1.0 = "FetchRejects :: unit response"
      and ?r2.0 = "FetchRejects :: unit response" and ?r3.0 = "Response False None"
      and s = funded_state and s' = funded_state]
    funded_state_valid
  by simp

section \<open>Worlds: renders, effects, handlers and runs\<close>

lemma run_snoc: "run (es @ [e]) w = step e (run es w)"
  by (induction es arbitrary: w) auto

lemma update_simps:
  "st (update f w) = (if mounted w then f (st w) else st w)"
  "mounted (update f w) = mounted w"
  "pending (update f w) = pending w"
  "sent (update f w) = sent w"
  "interval (update f w) = interval w"
  "ran_for (update f w) = ran_for w"
  by (auto simp: update_def render_def)

lemma invoke_simps:
  "st (invoke h w) = (if mounted w then fst (h (st w)) else st w)"
  "mounted (invoke h w) = mounted w"
  "pending (invoke h w) = pending w @ snd (h (st w))"
  "sent (invoke h w) = sent w @ snd (h (st w))"
  "interval (invoke h w) = interval w"
  "ran_for (invoke h w) = ran_for w"
  by (auto simp: invoke_def update_simps split: prod.splits)

lemma flushEffects_simps:
  "st (flushEffects w) = st w"
  "mounted (flushEffects w) = mounted w"
  "pending (flushEffects w) = pending w"
  "sent (flushEffects w) = sent w"
  "ran_for (flushEffects w) = (if mounted w then Some (isMining (st w)) else None)"
  by (auto simp: flushEffects_def runEffect_def cleanupEffect_def split: option.splits)

lemma typed_world_eq:
  "typed_world =
     init\<lparr>st := initial_state\<lparr>customWallet := example_address\<rparr>, ran_for := Some False\<rparr>"
  by (simp add: typed_world_def init_def initial_state_def input_disabled_def update_def
      render_def flushEffects_def runEffect_def cleanupEffect_def)

lemma mining_world_eq:
  "mining_world =
     \<lparr>st = initial_state\<lparr>isMining := True, message := Some (Success, js ''Mining started.'')\<rparr>,
      mounted = True, interval = Some 2000, ran_for = Some True, pending = [],
      sent = [StartRequest]\<rparr>"
  by (simp add: mining_world_def init_def initial_state_def start_disabled_def invoke_def
      update_def render_def startMining_begin_def flushEffects_def runEffect_def
      cleanupEffect_def)

lemma polling_world_eq:
  "polling_world =
     mining_world\<lparr>pending := [StatusRequest], sent := [StartRequest, StatusRequest]\<rparr>"
proof -
  have "polling_world = step IntervalFires mining_world"
    by (simp add: polling_world_def mining_world_def)
  then show ?thesis
    by (simp add: mining_world_eq invoke_def update_def render_def poll_begin_def)
qed

lemma stopping_world_eq:
  "stopping_world =
     mining_world\<lparr>st := (st mining_world)\<lparr>isLoading := True, message := None\<rparr>,
       pending := [StopRequest], sent := [StartRequest, StopRequest]\<rparr>"
  by (simp add: stopping_world_def mining_world_def init_def initial_state_def
      start_disabled_def stop_disabled_def invoke_def update_def render_def
      startMining_begin_def stopMining_begin_def flushEffects_def runEffect_def
      cleanupEffect_def)

lemma stopped_world_eq:
  "stopped_world =
     \<lparr>st = initial_state\<lparr>message := Some (Success, js ''Mining stopped.'')\<rparr>,
      mounted = True, interval = Some 2000, ran_for = Some True, pending = [],
      sent = [StartRequest, StopRequest]\<rparr>"
proof -
  have "stopped_world = step (StopResponds (Response True None)) stopping_world"
    by (simp add: stopped_world_def stopping_world_def)
  then show ?thesis
    by (simp add: stopping_world_eq mining_world_eq update_def render_def initial_state_def)
qed

section \<open>The gate of the action buttons\<close>

lemma gate_inv_init: "gate_inv init"
  by (simp add: gate_inv_def init_def)

lemma remove1_only:
  assumes "length (filter P xs) \<le> 1" and "x \<in> set xs" and "P x"
  shows "filter P (remove1 x xs) = []"
proof -
  have "x \<in> set (filter P xs)" using assms(2,3) by simp
  with assms(1) have "filter P xs = [x]"
    by (cases "filter P xs") auto
  then show ?thesis by (simp add: filter_remove1)
qed

lemma only_one:
  assumes "length (filter P xs) \<le> 1" and "x \<in> set xs" and "P x" and "y \<in> set xs" and "P y"
  shows "x = y"
proof -
  have "x \<in> set (filter P xs)" "y \<in> set (filter P xs)" using assms by simp_all
  with assms(1) show ?thesis
    by (cases "filter P xs") auto
qed

lemma remove1_status:
  "filter is_action (remove1 StatusRequest xs) = filter is_action xs"
  by (simp add: filter_remove1 remove1_idem)

lemma gate_inv_flushEffects: "gate_inv (flushEffects w) = gate_inv w"
  by (simp add: gate_inv_def flushEffects_simps)

lemma gate_inv_begin:
  assumes "gate_inv w" and "mounted w" and "\<not> isLoading (st w)"
    and "h (st w) = (s', [q])" and "isLoading s'"
  shows "gate_inv (invoke h (flushEffects w))"
  using assms by (simp add: gate_inv_def invoke_simps flushEffects_simps)

lemma gate_inv_response:
  assumes "gate_inv w" and "q \<in> set (pending w)" and "is_action q"
    and "\<And>s. \<not> isLoading (f s)"
  shows "gate_inv (update f (w\<lparr>pending := remove1 q (pending w)\<rparr>))"
  using assms remove1_only [of is_action "pending w" q]
  by (simp add: gate_inv_def update_simps)

lemma poll_resume_flags:
  "isMining (poll_resume r s) = isMining s" "isLoading (poll_resume r s) = isLoading s"
  by (cases "(r, s)" rule: poll_resume.cases; simp)+

lemma gate_inv_step:
  assumes g: "gate_inv w"
  shows "gate_inv (step e w)"
proof (cases e)
  case ClickStart
  with g show ?thesis
    by (auto simp: start_disabled_def startMining_begin_def intro!: gate_inv_begin)
next
  case ClickStop
  with g show ?thesis
    by (auto simp: stop_disabled_def stopMining_begin_def intro!: gate_inv_begin)
next
  case ClickDeposit
  show ?thesis
  proof (cases "valid_address (customWallet (st w))")
    case True
    with g show ?thesis
      unfolding ClickDeposit
      by (auto simp: deposit_disabled_def deposit_begin_valid flushEffects_simps
          intro!: gate_inv_begin)
  next
    case False
    with g show ?thesis
      unfolding ClickDeposit
      by (auto simp: deposit_disabled_def deposit_begin_invalid gate_inv_def invoke_simps
          flushEffects_simps)
  qed
next
  case (ChangeWallet v)
  with g show ?thesis
    by (auto simp: gate_inv_def update_simps flushEffects_simps)
next
  case IntervalFires
  with g show ?thesis
    by (auto simp: gate_inv_def invoke_simps poll_begin_def)
next
  case (StartResponds r)
  with g show ?thesis
    by (auto simp: startMining_resume_loading intro!: gate_inv_response)
next
  case (StopResponds r)
  with g show ?thesis
    by (auto simp: stopMining_resume_loading intro!: gate_inv_response)
next
  case (StatusResponds r)
  with g show ?thesis
    by (auto simp: gate_inv_def update_simps remove1_status poll_resume_flags)
next
  case (DepositResponds a r)
  with g show ?thesis
    by (auto simp: deposit_resume_loading intro!: gate_inv_response)
next
  case FlushEffects
  with g show ?thesis
    by (simp add: gate_inv_flushEffects)
next
  case Unmount
  with g show ?thesis
    by (simp add: gate_inv_def)
qed

lemma gate_inv_run: "gate_inv w \<Longrightarrow> gate_inv (run es w)"
  by (induction es arbitrary: w) (auto simp: gate_inv_step)

lemma in_flight_loading:
  "gate_inv w \<Longrightarrow> mounted w \<Longrightarrow> action_in_flight w \<Longrightarrow> isLoading (st w)"
  by (auto simp: gate_inv_def action_in_flight_def list_ex_iff filter_empty_conv)

lemma stopping_world_in_flight: "action_in_flight stopping_world"
  by (simp add: stopping_world_eq action_in_flight_def)

text \<open>
  C7. In every world the component can reach: a click on Start while it is mining, and a
  click on Start, Stop or Deposit while the request of a user action is pending, leaves
  the world as it is; no handler runs, so no request is sent and none is queued.
\<close>

theorem gate_blocks_second_request:
  "(isMining (st (run es init)) \<longrightarrow> step ClickStart (run es init) = run es init) \<and>
   (action_in_flight (run es init) \<longrightarrow>
      step ClickStart (run es init) = run es init \<and>
      step ClickStop (run es init) = run es init \<and>
      step ClickDeposit (run es init) = run es init)"
proof -
  have "gate_inv (run es init)"
    by (rule gate_inv_run [OF gate_inv_init])
  then have "mounted (run es init) \<Longrightarrow> action_in_flight (run es init) \<Longrightarrow>
      isLoading (st (run es init))"
    by (rule in_flight_loading)
  then show ?thesis
    by (auto simp: start_disabled_def stop_disabled_def deposit_disabled_def)
qed

theorem gate_blocks_second_request_witness:
  "isMining (st stopping_world) \<and> action_in_flight stopping_world \<and>
   step ClickStart stopping_world = stopping_world \<and>
   step ClickStop stopping_world = stopping_world \<and>
   step ClickDeposit stopping_world = stopping_world"
proof -
  have "isMining (st stopping_world)"
    by (simp add: stopping_world_eq mining_world_eq)
  then show ?thesis
    using
      gate_blocks_second_request [of "[ClickStart, StartResponds (Response True None), ClickStop]"]
      stopping_world_in_flight
    unfolding stopping_world_def [symmetric]
    by blast
qed

section \<open>The polling timer and the effect\<close>

lemma timer_inv_init: "timer_inv init"
  by (simp add: timer_inv_def init_def)

lemma timer_inv_flushEffects: "timer_inv w \<Longrightarrow> timer_inv (flushEffects w)"
  by (auto simp: timer_inv_def flushEffects_def runEffect_def cleanupEffect_def
      split: option.splits if_splits)

lemma timer_inv_update: "timer_inv (update f w) = timer_inv w"
  by (simp add: timer_inv_def update_simps)

lemma timer_inv_invoke: "timer_inv (invoke h w) = timer_inv w"
  by (simp add: timer_inv_def invoke_simps)

lemma timer_inv_pending: "timer_inv (w\<lparr>pending := p\<rparr>) = timer_inv w"
  by (simp add: timer_inv_def)

lemma timer_inv_step: "timer_inv w \<Longrightarrow> timer_inv (step e w)"
proof (cases e)
  case Unmount
  then show "timer_inv w \<Longrightarrow> ?thesis" by (simp add: timer_inv_def)
qed (auto simp: timer_inv_update timer_inv_invoke timer_inv_pending timer_inv_flushEffects)

lemma timer_inv_run: "timer_inv w \<Longrightarrow> timer_inv (run es w)"
  by (induction es arbitrary: w) (auto simp: timer_inv_step)

lemma reachable_interval:
  "interval (run es init) = (if ran_for (run es init) = Some True then Some 2000 else None)"
  using timer_inv_run [OF timer_inv_init, of es] by (simp add: timer_inv_def)

lemma effects_current_flushEffects: "effects_current (flushEffects w)"
  by (simp add: effects_current_def flushEffects_simps)

text \<open>
  C4, as amended. The interval is registered and cleared by the polling effect only, and
  React runs the effect and its clean-up after the commit. In every world the component
  can reach in which the effect is up to date, the interval of 2000 ms is registered
  exactly while the component is mounted and mining: none is when it is not mining,
  none when it is unmounted. In every world it can reach, running the pending effects
  changes neither the state nor the mounting, brings the effect up to date, and leaves
  the interval registered exactly when the component is mounted and mining: after a
  change of \<open>isMining\<close> to true it registers the interval, after a change to false and
  after unmounting it clears it.
\<close>

theorem timer_follows_effect:
  "(effects_current (run es init) \<longrightarrow>
      interval (run es init) =
        (if mounted (run es init) \<and> isMining (st (run es init)) then Some 2000 else None)) \<and>
   effects_current (step FlushEffects (run es init)) \<and>
   st (step FlushEffects (run es init)) = st (run es init) \<and>
   mounted (step FlushEffects (run es init)) = mounted (run es init) \<and>
   interval (step FlushEffects (run es init)) =
     (if mounted (run es init) \<and> isMining (st (run es init)) then Some 2000 else None)"
proof -
  let ?w = "run es init"
  have a: "effects_current (run fs init) \<Longrightarrow>
      interval (run fs init) =
        (if mounted (run fs init) \<and> isMining (st (run fs init)) then Some 2000 else None)"
    for fs
    by (auto simp: reachable_interval [of fs] effects_current_def split: if_splits)
  have b: "effects_current (step FlushEffects ?w)"
    by (simp add: effects_current_flushEffects)
  have c: "st (step FlushEffects ?w) = st ?w" "mounted (step FlushEffects ?w) = mounted ?w"
    by (simp_all add: flushEffects_simps)
  have "interval (run (es @ [FlushEffects]) init) =
      (if mounted (run (es @ [FlushEffects]) init) \<and> isMining (st (run (es @ [FlushEffects]) init))
       then Some 2000 else None)"
    using b by (intro a) (simp add: run_snoc)
  then have d: "interval (step FlushEffects ?w) =
      (if mounted ?w \<and> isMining (st ?w) then Some 2000 else None)"
    using c by (simp add: run_snoc del: step.simps)
  show ?thesis using a [of es] b c d by (simp del: step.simps)
qed

theorem timer_follows_effect_witness:
  "effects_current mining_world \<and> mounted mining_world \<and> isMining (st mining_world) \<and>
   interval mining_world = Some 2000 \<and>
   \<not> isMining (st stopped_world) \<and>
   interval (step FlushEffects stopped_world) = None"
proof -
  have m: "effects_current mining_world" "mounted mining_world" "isMining (st mining_world)"
    by (simp_all add: mining_world_eq effects_current_def)
  have s: "\<not> isMining (st stopped_world)"
    by (simp add: stopped_world_eq initial_state_def)
  show ?thesis
    using
      timer_follows_effect [of "[ClickStart, StartResponds (Response True None), FlushEffects]"]
      timer_follows_effect [of "[ClickStart, StartResponds (Response True None), ClickStop,
          StopResponds (Response True None)]"]
      m s
    unfolding mining_world_def [symmetric] stopped_world_def [symmetric]
    by (simp del: step.simps)
qed

text \<open>
  C4 as stated fails: after start and a successful stop the state is committed with
  \<open>isMining\<close> false while the clean-up of the effect has not run yet; the interval is
  still registered, and when it fires it sends a status request.
\<close>

theorem timer_outlives_active_counterexample:
  "\<not> isMining (st stopped_world) \<and> interval stopped_world = Some 2000 \<and>
   sent (step IntervalFires stopped_world) = [StartRequest, StopRequest, StatusRequest]"
  by (simp add: stopped_world_eq initial_state_def invoke_def update_def render_def
      poll_begin_def)

section \<open>A failed poll\<close>

lemma poll_resume_failed:
  "\<forall>d. r \<noteq> Response True (Some d) \<Longrightarrow>
     poll_resume r s = s\<lparr>message := message (poll_resume r s)\<rparr> \<and>
     (\<exists>t. message (poll_resume r s) = Some (Error, t))"
  by (cases "(r, s)" rule: poll_resume.cases) auto

lemma step_IntervalFires_live:
  "interval w \<noteq> None \<Longrightarrow>
     step IntervalFires w =
       w\<lparr>pending := pending w @ [StatusRequest], sent := sent w @ [StatusRequest]\<rparr>"
  by (simp add: invoke_def update_def render_def poll_begin_def)

lemma run_IntervalFires:
  "interval w \<noteq> None \<Longrightarrow>
     run (replicate n IntervalFires) w =
       w\<lparr>pending := pending w @ replicate n StatusRequest,
         sent := sent w @ replicate n StatusRequest\<rparr>"
proof (induction n arbitrary: w)
  case 0
  show ?case by simp
next
  case (Suc n)
  let ?w = "w\<lparr>pending := pending w @ [StatusRequest], sent := sent w @ [StatusRequest]\<rparr>"
  have "run (replicate (Suc n) IntervalFires) w = run (replicate n IntervalFires) ?w"
    using Suc.prems by (simp add: step_IntervalFires_live del: step.simps)
  also have "\<dots> = ?w\<lparr>pending := pending ?w @ replicate n StatusRequest,
         sent := sent ?w @ replicate n StatusRequest\<rparr>"
    using Suc.prems by (intro Suc.IH) simp
  finally show ?case by (simp add: replicate_app_Cons_same)
qed

text \<open>
  C5. When the response to a status request is anything but an ok response with a
  readable body (a response that is not ok, a transport error), \<open>progress\<close>,
  \<open>hashRate\<close>, \<open>totalMined\<close> and \<open>isMining\<close> keep their values and the interval stays
  as it was; the mounted component, for a status request that was pending, posts an
  error message; and a registered interval issues the next status request when it
  fires again.
\<close>

theorem failed_poll_keeps_state:
  assumes "\<forall>d. r \<noteq> Response True (Some d)"
  shows
    "progress (st (step (StatusResponds r) w)) = progress (st w) \<and>
     hashRate (st (step (StatusResponds r) w)) = hashRate (st w) \<and>
     totalMined (st (step (StatusResponds r) w)) = totalMined (st w) \<and>
     isMining (st (step (StatusResponds r) w)) = isMining (st w) \<and>
     interval (step (StatusResponds r) w) = interval w \<and>
     (mounted w \<and> StatusRequest \<in> set (pending w) \<longrightarrow>
        (\<exists>t. message (st (step (StatusResponds r) w)) = Some (Error, t))) \<and>
     (interval w \<noteq> None \<longrightarrow>
        sent (step IntervalFires (step (StatusResponds r) w)) =
          sent (step (StatusResponds r) w) @ [StatusRequest])"
proof -
  let ?w = "step (StatusResponds r) w"
  obtain t where eq: "poll_resume r (st w) = (st w)\<lparr>message := Some (Error, t)\<rparr>"
    using poll_resume_failed [OF assms, of "st w"] by metis
  have i: "interval ?w = interval w"
    by (simp add: update_simps)
  have f: "progress (st ?w) = progress (st w)" "hashRate (st ?w) = hashRate (st w)"
    "totalMined (st ?w) = totalMined (st w)" "isMining (st ?w) = isMining (st w)"
    by (simp_all add: update_simps eq)
  have m: "mounted w \<and> StatusRequest \<in> set (pending w) \<Longrightarrow>
      message (st ?w) = Some (Error, t)"
    by (simp add: update_simps eq)
  have n: "interval w \<noteq> None \<Longrightarrow> sent (step IntervalFires ?w) = sent ?w @ [StatusRequest]"
    using i by (simp add: step_IntervalFires_live del: step.simps)
  show ?thesis using i f m n by blast
qed

theorem failed_poll_keeps_state_witness:
  "(\<forall>d. (FetchRejects :: status_data response) \<noteq> Response True (Some d)) \<and>
   mounted polling_world \<and> StatusRequest \<in> set (pending polling_world) \<and>
   interval polling_world \<noteq> None \<and>
   totalMined (st (step (StatusResponds FetchRejects) polling_world)) = 0 \<and>
   isMining (st (step (StatusResponds FetchRejects) polling_world)) \<and>
   interval (step (StatusResponds FetchRejects) polling_world) = Some 2000 \<and>
   (\<exists>t. message (st (step (StatusResponds FetchRejects) polling_world)) = Some (Error, t)) \<and>
   sent (step IntervalFires (step (StatusResponds FetchRejects) polling_world)) =
     sent (step (StatusResponds FetchRejects) polling_world) @ [StatusRequest]"
proof -
  have h: "\<forall>d. (FetchRejects :: status_data response) \<noteq> Response True (Some d)"
    by simp
  have p: "mounted polling_world" "StatusRequest \<in> set (pending polling_world)"
    "interval polling_world = Some 2000" "totalMined (st polling_world) = 0"
    "isMining (st polling_world)"
    by (simp_all add: polling_world_eq mining_world_eq initial_state_def)
  show ?thesis
    using failed_poll_keeps_state [OF h, of polling_world] h p by (simp del: step.simps)
qed

section \<open>A failed stop\<close>

lemma stopMining_resume_failed:
  "\<forall>b. r \<noteq> Response True b \<Longrightarrow>
     isMining (stopMining_resume r s) = isMining s \<and>
     (\<exists>t. message (stopMining_resume r s) = Some (Error, t))"
  by (cases "(r, s)" rule: stopMining_resume.cases) auto

lemma stop_inv_init: "stop_inv init"
  by (simp add: stop_inv_def init_def)

lemma stop_not_pending:
  assumes "gate_inv w" and "q \<in> set (pending w)" and "is_action q" and "q \<noteq> StopRequest"
  shows "StopRequest \<notin> set (pending w)"
  using assms only_one [of is_action "pending w" q StopRequest]
  by (auto simp: gate_inv_def)

lemma stop_not_pending_idle:
  assumes "gate_inv w" and "mounted w" and "\<not> isLoading (st w)"
  shows "StopRequest \<notin> set (pending w)"
proof
  assume "StopRequest \<in> set (pending w)"
  then have "StopRequest \<in> set (filter is_action (pending w))" by simp
  with assms show False by (simp add: gate_inv_def)
qed

lemma stop_inv_step:
  assumes g: "gate_inv w" and s: "stop_inv w"
  shows "stop_inv (step e w)"
proof (cases e)
  case ClickStart
  show ?thesis
    unfolding ClickStart
    using g s stop_not_pending_idle [of w]
    by (auto simp: stop_inv_def start_disabled_def startMining_begin_def invoke_simps
        flushEffects_simps)
next
  case ClickStop
  show ?thesis
    unfolding ClickStop
    using g s
    by (auto simp: stop_inv_def stop_disabled_def stopMining_begin_def invoke_simps
        flushEffects_simps)
next
  case ClickDeposit
  show ?thesis
  proof (cases "valid_address (customWallet (st w))")
    case True
    then show ?thesis
      unfolding ClickDeposit
      using g s stop_not_pending_idle [of w]
      by (auto simp: stop_inv_def deposit_disabled_def deposit_begin_valid invoke_simps
          flushEffects_simps)
  next
    case False
    then show ?thesis
      unfolding ClickDeposit
      using g s stop_not_pending_idle [of w]
      by (auto simp: stop_inv_def deposit_disabled_def deposit_begin_invalid invoke_simps
          flushEffects_simps)
  qed
next
  case (ChangeWallet v)
  show ?thesis
    unfolding ChangeWallet
    using g s stop_not_pending_idle [of w]
    by (auto simp: stop_inv_def input_disabled_def update_simps flushEffects_simps)
next
  case IntervalFires
  show ?thesis
    unfolding IntervalFires
    using s by (auto simp: stop_inv_def invoke_simps poll_begin_def)
next
  case (StartResponds r)
  show ?thesis
  proof (cases "StartRequest \<in> set (pending w)")
    case True
    then have "StopRequest \<notin> set (pending w)"
      using stop_not_pending [OF g, of StartRequest] by simp
    then have "StopRequest \<notin> set (remove1 StartRequest (pending w))"
      using notin_set_remove1 by fast
    then show ?thesis
      unfolding StartResponds using True by (simp add: stop_inv_def update_simps)
  next
    case False
    then show ?thesis unfolding StartResponds using s by simp
  qed
next
  case (StopResponds r)
  show ?thesis
  proof (cases "StopRequest \<in> set (pending w)")
    case True
    have "filter is_action (remove1 StopRequest (pending w)) = []"
      using g True by (intro remove1_only) (simp_all add: gate_inv_def)
    then have "StopRequest \<notin> set (remove1 StopRequest (pending w))"
      by (auto simp: filter_empty_conv)
    then show ?thesis
      unfolding StopResponds using True by (simp add: stop_inv_def update_simps)
  next
    case False
    then show ?thesis unfolding StopResponds using s by simp
  qed
next
  case (StatusResponds r)
  have "StopRequest \<in> set (remove1 StatusRequest (pending w)) \<Longrightarrow>
      StopRequest \<in> set (pending w)"
    using notin_set_remove1 by fast
  then show ?thesis
    unfolding StatusResponds
    using s by (auto simp: stop_inv_def update_simps poll_resume_flags)
next
  case (DepositResponds a r)
  show ?thesis
  proof (cases "DepositRequest a \<in> set (pending w)")
    case True
    then have "StopRequest \<notin> set (pending w)"
      using stop_not_pending [OF g, of "DepositRequest a"] by simp
    then have "StopRequest \<notin> set (remove1 (DepositRequest a) (pending w))"
      using notin_set_remove1 by fast
    then show ?thesis
      unfolding DepositResponds using True by (simp add: stop_inv_def update_simps)
  next
    case False
    then show ?thesis unfolding DepositResponds using s by simp
  qed
next
  case FlushEffects
  show ?thesis
    unfolding FlushEffects
    using s by (auto simp: stop_inv_def flushEffects_simps)
next
  case Unmount
  show ?thesis
    unfolding Unmount by (simp add: stop_inv_def)
qed

lemma stop_inv_run: "gate_inv w \<Longrightarrow> stop_inv w \<Longrightarrow> stop_inv (run es w)"
  by (induction es arbitrary: w) (auto simp: gate_inv_step stop_inv_step)

lemma reachable_stop_pending:
  assumes "mounted (run es init)" and "StopRequest \<in> set (pending (run es init))"
  shows "interval (run es init) = Some 2000"
proof -
  have "stop_inv (run es init)"
    by (rule stop_inv_run [OF gate_inv_init stop_inv_init])
  with assms have "ran_for (run es init) = Some True"
    by (simp add: stop_inv_def)
  then show ?thesis by (simp add: reachable_interval)
qed

text \<open>
  C10. In a reachable world where the mounted component is mining and a stop request is
  pending, a response that is not ok, or a transport error, leaves it mining with an
  error message and the interval of 2000 ms registered; and each of the next \<open>n\<close> times
  the interval fires it sends one more status request, the interval staying registered.
\<close>

theorem failed_stop_keeps_polling:
  assumes "mounted (run es init)" and "isMining (st (run es init))"
    and "StopRequest \<in> set (pending (run es init))"
    and "\<forall>b. r \<noteq> Response True b"
  shows
    "isMining (st (step (StopResponds r) (run es init))) \<and>
     interval (step (StopResponds r) (run es init)) = Some 2000 \<and>
     (\<exists>t. message (st (step (StopResponds r) (run es init))) = Some (Error, t)) \<and>
     interval (run (replicate n IntervalFires) (step (StopResponds r) (run es init))) =
       Some 2000 \<and>
     sent (run (replicate n IntervalFires) (step (StopResponds r) (run es init))) =
       sent (step (StopResponds r) (run es init)) @ replicate n StatusRequest"
proof -
  let ?w = "run es init" and ?w' = "step (StopResponds r) (run es init)"
  have i: "interval ?w = Some 2000"
    using assms(1,3) by (rule reachable_stop_pending)
  have k: "isMining (stopMining_resume r (st ?w))"
    "\<exists>t. message (stopMining_resume r (st ?w)) = Some (Error, t)"
    using stopMining_resume_failed [OF assms(4), of "st ?w"] assms(2) by simp_all
  have a: "isMining (st ?w')" "\<exists>t. message (st ?w') = Some (Error, t)"
    using assms(1,3) k by (simp_all add: update_simps)
  have b: "interval ?w' = Some 2000"
    using assms(3) i by (simp add: update_simps)
  then have "interval ?w' \<noteq> None" by simp
  note run_IntervalFires [OF this, of n]
  then show ?thesis using a b by simp
qed

theorem failed_stop_keeps_polling_witness:
  "mounted stopping_world \<and> isMining (st stopping_world) \<and>
   StopRequest \<in> set (pending stopping_world) \<and>
   (\<forall>b. (Response False None :: unit response) \<noteq> Response True b) \<and>
   isMining (st (step (StopResponds (Response False None)) stopping_world)) \<and>
   interval (step (StopResponds (Response False None)) stopping_world) = Some 2000 \<and>
   sent (run (replicate 3 IntervalFires)
       (step (StopResponds (Response False None)) stopping_world)) =
     sent (step (StopResponds (Response False None)) stopping_world) @
       replicate 3 StatusRequest"
proof -
  have p: "mounted stopping_world" "isMining (st stopping_world)"
    "StopRequest \<in> set (pending stopping_world)"
    by (simp_all add: stopping_world_eq mining_world_eq)
  have h: "\<forall>b. (Response False None :: unit response) \<noteq> Response True b"
    by simp
  show ?thesis
    using
      failed_stop_keeps_polling [of "[ClickStart, StartResponds (Response True None), ClickStop]"
        "Response False None" 3]
      p h
    unfolding stopping_world_def [symmetric]
    by blast
qed

section \<open>Deposit and the accrued total\<close>

text \<open>
  C8, as amended. The total is looked at by the Deposit button only: while \<open>totalMined\<close>
  is not positive a click on it leaves the world as it is, so through the button
  \<open>deposit\<close> runs only when \<open>totalMined > 0\<close>. The handler itself does not read
  \<open>totalMined\<close>: the requests it issues are the same whatever the total is.
\<close>

theorem deposit_gated_at_button:
  "(totalMined (st w) \<le> 0 \<longrightarrow> step ClickDeposit w = w) \<and>
   snd (deposit r (s\<lparr>totalMined := x\<rparr>)) = snd (deposit r s)"
proof -
  have "snd (deposit r (s\<lparr>totalMined := x\<rparr>)) = snd (deposit r s)"
    using deposit_valid [of "s\<lparr>totalMined := x\<rparr>" r] deposit_valid [of s r]
      deposit_invalid [of "s\<lparr>totalMined := x\<rparr>" r] deposit_invalid [of s r]
    by (cases "valid_address (customWallet s)") simp_all
  then show ?thesis by (simp add: deposit_disabled_def)
qed

theorem deposit_gated_at_button_witness:
  "totalMined (st typed_world) \<le> 0 \<and> step ClickDeposit typed_world = typed_world"
proof -
  have "totalMined (st typed_world) \<le> 0"
    by (simp add: typed_world_eq init_def initial_state_def)
  then show ?thesis
    using
      deposit_gated_at_button [where w = typed_world and r = FetchRejects
        and s = initial_state and x = 0]
    by blast
qed

text \<open>
  C8 as stated fails: with nothing accrued and a valid address typed in, a call of
  \<open>deposit\<close> issues the deposit request.
\<close>

theorem deposit_unguarded_counterexample:
  "totalMined (st typed_world) = 0 \<and>
   snd (deposit FetchRejects (st typed_world)) = [DepositRequest example_address]"
proof -
  have "customWallet (st typed_world) = example_address" "totalMined (st typed_world) = 0"
    by (simp_all add: typed_world_eq init_def initial_state_def)
  then show ?thesis
    using deposit_valid [of "st typed_world" FetchRejects] example_address_valid by simp
qed

end
